theory Spec2Isabelle
  imports Main "HOL-Library.Multiset" "HOL-Library.List_Lexorder"
begin

section \<open>Package tracker: snapshots, keys, classification and the run controller\<close>

text \<open>
  The program is a browser content script, \<open>content.js\<close>, of which the sources hold
  four revisions; the development follows the last one (the second half of
  \<open>src/unnamed/part_001\<close>, from line 395: the one with \<open>beginInitialization\<close>, the
  three keys and the "previous value" annotations). The earlier revisions differ: they
  have no \<open>isInitializing\<close> flag, and the first one has two keys only.

  JavaScript strings are modelled as \<open>string\<close>, template literals as concatenation,
  \<open>Map\<close> as a partial function that is updated in iteration order, a thrown exception
  or a rejected promise as a value of type \<open>error\<close>, and the annotations written into
  the page as values returned by the classification. The references to page elements
  that the parsed records carry (\<open>element\<close>) are left out: they are removed before the
  records are stored and no key reads them.
\<close>

subsection \<open>Snapshots\<close>

record card =
  name :: string
  condition :: string
  price :: string
  quantity :: string

record package =
  username :: string
  total :: string
  efficiencyText :: string
  efficiencyPercentage :: string
  cards :: "card list"

subsection \<open>The markup a listing is read from\<close>

text \<open>
  What \<open>parsePackage\<close> reads of a listing element: the result of each
  \<open>querySelector\<close> is \<open>None\<close> when no element matches and otherwise the text content
  of the first match.
\<close>

record li_elem =
  li_more :: bool
  li_a :: "string option"
  li_condition :: "string option"
  li_strong :: "string option"
  li_textContent :: string

record heading_elem =
  h_a :: "string option"
  h_strong :: "string option"
  h_efficiency :: "string option"

record pkg_elem =
  pkg_heading :: "heading_elem option"
  pkg_items :: "li_elem list"

datatype error = TypeError | StoreError

subsection \<open>Record extractor\<close>

definition textOrEmpty :: "string option \<Rightarrow> string" where
  \<comment> \<open>\<open>el?.textContent || ''\<close>\<close>
  "textOrEmpty t = (case t of None \<Rightarrow> [] | Some s \<Rightarrow> s)"

definition isDigit :: "char \<Rightarrow> bool" where
  "isDigit c = (c \<in> set ''0123456789'')"

definition matchAt :: "char \<Rightarrow> string \<Rightarrow> string option" where
  \<comment> \<open>the regular expression \<open>(\d+)m\<close> tried at the start of \<open>s\<close>: the greedy run of
     digits, which must be followed by the character \<open>m\<close>\<close>
  "matchAt m s =
     (let ds = takeWhile isDigit s in
      if ds \<noteq> [] \<and> (case dropWhile isDigit s of [] \<Rightarrow> False | r # _ \<Rightarrow> r = m)
      then Some ds else None)"

fun firstMatch :: "char \<Rightarrow> string \<Rightarrow> string option" where
  \<comment> \<open>\<open>s.match(/(\d+)m/)\<close>: the leftmost start position that matches; the value is the
     capture group\<close>
  "firstMatch m [] = None"
| "firstMatch m (c # cs) =
     (case matchAt m (c # cs) of Some ds \<Rightarrow> Some ds | None \<Rightarrow> firstMatch m cs)"

definition parseCard :: "li_elem \<Rightarrow> card" where
  "parseCard li =
     \<lparr> name = textOrEmpty (li_a li),
       condition = textOrEmpty (li_condition li),
       price = textOrEmpty (li_strong li),
       quantity = (case firstMatch (CHR ''x'') (li_textContent li) of
                     None \<Rightarrow> ''1'' | Some q \<Rightarrow> q) \<rparr>"

text \<open>
  \<open>localeCompare\<close> is a consistent comparator that depends on the locale; it is
  modelled as the comparison of a collation key \<open>collate name\<close> in a linear order, the
  key function being a parameter. \<open>Array.prototype.sort\<close> is stable, as is
  \<open>sort_key\<close>.
\<close>

definition parsePackage :: "(string \<Rightarrow> 'k::linorder) \<Rightarrow> pkg_elem \<Rightarrow> error + package" where
  "parsePackage collate pkg =
     (case pkg_heading pkg of
        None \<Rightarrow> Inl TypeError
      | Some heading \<Rightarrow>
          (let efficiencyText = textOrEmpty (h_efficiency heading) in
           Inr \<lparr> username = textOrEmpty (h_a heading),
                 total = textOrEmpty (h_strong heading),
                 efficiencyText = efficiencyText,
                 efficiencyPercentage =
                   (case firstMatch (CHR ''%'') efficiencyText of None \<Rightarrow> [] | Some p \<Rightarrow> p),
                 cards = sort_key (\<lambda>c. collate (name c))
                           (map parseCard (filter (\<lambda>li. \<not> li_more li) (pkg_items pkg))) \<rparr>))"

subsection \<open>Key derivation\<close>

fun join :: "string \<Rightarrow> string list \<Rightarrow> string" where
  "join sep [] = []"
| "join sep [s] = s"
| "join sep (s # t # ts) = s @ sep @ join sep (t # ts)"

definition cardKey :: "card \<Rightarrow> string" where
  \<comment> \<open>\<open>`${card.quantity}x ${card.name} ${card.condition}`\<close>\<close>
  "cardKey c = quantity c @ ''x '' @ name c @ '' '' @ condition c"

definition cardKeyWithPrice :: "card \<Rightarrow> string" where
  "cardKeyWithPrice c = quantity c @ ''x '' @ name c @ '' '' @ condition c @ '' '' @ price c"

definition getBasePackageKey :: "package \<Rightarrow> string" where
  "getBasePackageKey pkgObj = username pkgObj @ ''-'' @ join ''|'' (map cardKey (cards pkgObj))"

definition getPackageKeyWithPercentage :: "package \<Rightarrow> string" where
  "getPackageKeyWithPercentage pkgObj =
     getBasePackageKey pkgObj @ ''-'' @ efficiencyPercentage pkgObj"

definition getFullPackageKey :: "package \<Rightarrow> string" where
  "getFullPackageKey pkgObj =
     username pkgObj @ ''-'' @ total pkgObj @ ''-'' @ efficiencyPercentage pkgObj @ ''-''
       @ join ''|'' (map cardKeyWithPrice (cards pkgObj))"

subsection \<open>Diff engine\<close>

record prevData =
  percentageKey :: string
  fullKey :: string
  pkg :: package

definition prevBasePackageMap :: "package list \<Rightarrow> (string \<rightharpoonup> prevData)" where
  \<comment> \<open>the \<open>forEach\<close> over the previous packages: a later package with the same base key
     replaces the earlier entry. The second map of the source,
     \<open>prevPackageWithPercentageMap\<close>, is filled but never read.\<close>
  "prevBasePackageMap prevPackages =
     foldl (\<lambda>m p. m(getBasePackageKey p \<mapsto>
                       \<lparr> percentageKey = getPackageKeyWithPercentage p,
                         fullKey = getFullPackageKey p,
                         pkg = p \<rparr>))
           Map.empty prevPackages"

definition prevCardMap :: "card list \<Rightarrow> (string \<rightharpoonup> card)" where
  "prevCardMap prevCards = foldl (\<lambda>m c. m(cardKey c \<mapsto> c)) Map.empty prevCards"

datatype classification = New | OfferChanged | PriceChanged | Unchanged

text \<open>
  The outcome for one current package: the class added to its element (\<open>Unchanged\<close>
  when none is added), the arguments of \<open>displayOldPackageTotal\<close> when it is called,
  and for each current card the old price passed to \<open>displayOldPriceInfo\<close> when it is
  called for that card.
\<close>

record result =
  tag :: classification
  oldPackageTotal :: "(string \<times> string) option"
  oldPriceInfo :: "string option list"

definition oldPriceOf :: "(string \<rightharpoonup> card) \<Rightarrow> card \<Rightarrow> string option" where
  "oldPriceOf cardMap c =
     (case cardMap (cardKey c) of
        None \<Rightarrow> None
      | Some prevCard \<Rightarrow> if price prevCard \<noteq> price c then Some (price prevCard) else None)"

definition analyzePackage :: "(string \<rightharpoonup> prevData) \<Rightarrow> package \<Rightarrow> result" where
  "analyzePackage prevMap currPkg =
     (case prevMap (getBasePackageKey currPkg) of
        None \<Rightarrow>
          \<lparr> tag = New, oldPackageTotal = None,
            oldPriceInfo = map (\<lambda>c. None) (cards currPkg) \<rparr>
      | Some prev \<Rightarrow>
          if percentageKey prev \<noteq> getPackageKeyWithPercentage currPkg then
            \<lparr> tag = OfferChanged,
              oldPackageTotal = Some (total (pkg prev), efficiencyText (pkg prev)),
              oldPriceInfo = map (\<lambda>c. None) (cards currPkg) \<rparr>
          else if fullKey prev \<noteq> getFullPackageKey currPkg then
            \<lparr> tag = PriceChanged,
              oldPackageTotal = Some (total (pkg prev), efficiencyText (pkg prev)),
              oldPriceInfo = map (oldPriceOf (prevCardMap (cards (pkg prev)))) (cards currPkg) \<rparr>
          else
            \<lparr> tag = Unchanged, oldPackageTotal = None,
              oldPriceInfo = map (\<lambda>c. None) (cards currPkg) \<rparr>)"

definition classify :: "package list \<Rightarrow> package list \<Rightarrow> result list" where
  "classify currentPackages prevPackages =
     map (analyzePackage (prevBasePackageMap prevPackages)) currentPackages"

subsection \<open>Run controller\<close>

text \<open>
  The script runs on one event loop. A call of an \<open>async\<close> function runs up to its
  first \<open>await\<close> and is then suspended; a suspended call is a \<open>task\<close> that records where
  it waits. \<open>AwaitLoad\<close> and \<open>AwaitSave\<close> are the two store operations of
  \<open>initializeState\<close> (with the parsed current packages), \<open>AwaitReturn\<close> is
  \<open>beginInitialization\<close> waiting on the settled promise of \<open>initializeState\<close>, and
  \<open>AwaitClear\<close> is the reset handler waiting for \<open>storage.local.clear()\<close>. The
  unhandled rejections are collected in \<open>rejections\<close>.
\<close>

datatype task = AwaitLoad "package list" | AwaitSave "package list" | AwaitReturn | AwaitClear

record tracker =
  isInitialized :: bool
  isInitializing :: bool
  newCount :: nat
  offerChangedCount :: nat
  priceChangedCount :: nat
  annotations :: "result list"
  tasks :: "task list"
  rejections :: "error list"
  storage :: "package list option"

definition freshPage :: "package list option \<Rightarrow> tracker" where
  "freshPage st =
     \<lparr> isInitialized = False, isInitializing = False,
       newCount = 0, offerChangedCount = 0, priceChangedCount = 0,
       annotations = [], tasks = [], rejections = [], storage = st \<rparr>"

fun mapParse :: "(string \<Rightarrow> 'k::linorder) \<Rightarrow> pkg_elem list \<Rightarrow> error + package list" where
  \<comment> \<open>\<open>packages.map(pkg => parsePackage(pkg))\<close>: the first exception ends the map\<close>
  "mapParse collate [] = Inr []"
| "mapParse collate (p # ps) =
     (case parsePackage collate p of
        Inl e \<Rightarrow> Inl e
      | Inr x \<Rightarrow> (case mapParse collate ps of Inl e \<Rightarrow> Inl e | Inr xs \<Rightarrow> Inr (x # xs)))"

definition initializeState ::
    "(string \<Rightarrow> 'k::linorder) \<Rightarrow> pkg_elem list \<Rightarrow> tracker \<Rightarrow> tracker" where
  \<comment> \<open>\<open>initializeState\<close> as called by \<open>beginInitialization\<close>, up to its first
     \<open>await\<close>. When it returns before any \<open>await\<close>, the caller still waits for its
     promise (\<open>AwaitReturn\<close>); when \<open>parsePackage\<close> throws, the promise is rejected,
     the caller's \<open>await\<close> rethrows, and \<open>isInitializing = false\<close> is not reached.\<close>
  "initializeState collate packages s =
     (if isInitialized s then s\<lparr>tasks := tasks s @ [AwaitReturn]\<rparr>
      else if packages = [] then s\<lparr>tasks := tasks s @ [AwaitReturn]\<rparr>
      else
        (let s1 = s\<lparr>newCount := 0, offerChangedCount := 0, priceChangedCount := 0\<rparr> in
         case mapParse collate packages of
           Inl e \<Rightarrow> s1\<lparr>rejections := e # rejections s1\<rparr>
         | Inr currentPackages \<Rightarrow> s1\<lparr>tasks := tasks s1 @ [AwaitLoad currentPackages]\<rparr>))"

definition beginInitialization ::
    "(string \<Rightarrow> 'k::linorder) \<Rightarrow> pkg_elem list \<Rightarrow> tracker \<Rightarrow> tracker" where
  "beginInitialization collate packages s =
     (if isInitialized s \<or> isInitializing s then s
      else initializeState collate packages (s\<lparr>isInitializing := True\<rparr>))"

definition observerCallback ::
    "(string \<Rightarrow> 'k::linorder) \<Rightarrow> pkg_elem list \<Rightarrow> tracker \<Rightarrow> tracker" where
  "observerCallback collate packages s =
     (if \<not> isInitialized s \<and> \<not> isInitializing s then beginInitialization collate packages s
      else s)"

definition dropTask :: "nat \<Rightarrow> tracker \<Rightarrow> tracker" where
  "dropTask i s = s\<lparr>tasks := take i (tasks s) @ drop (Suc i) (tasks s)\<rparr>"

definition countTag :: "classification \<Rightarrow> result list \<Rightarrow> nat" where
  "countTag c rs = length (filter (\<lambda>r. tag r = c) rs)"

fun settle :: "nat \<Rightarrow> bool \<Rightarrow> task \<Rightarrow> tracker \<Rightarrow> tracker" where
  \<comment> \<open>the promise awaited by task \<open>i\<close> settles; \<open>ok\<close> tells fulfilled from rejected\<close>
  "settle i ok (AwaitLoad currentPackages) s =
     (if ok then
        (let prevPackages = (case storage s of None \<Rightarrow> [] | Some ps \<Rightarrow> ps);
             rs = classify currentPackages prevPackages
         in s\<lparr>newCount := countTag New rs,
               offerChangedCount := countTag OfferChanged rs,
               priceChangedCount := countTag PriceChanged rs,
               annotations := rs,
               tasks := (tasks s)[i := AwaitSave currentPackages]\<rparr>)
      else dropTask i (s\<lparr>rejections := StoreError # rejections s\<rparr>))"
| "settle i ok (AwaitSave packagesToStore) s =
     (if ok then
        s\<lparr>storage := Some packagesToStore, isInitialized := True,
          tasks := (tasks s)[i := AwaitReturn]\<rparr>
      else dropTask i (s\<lparr>rejections := StoreError # rejections s\<rparr>))"
| "settle i ok AwaitReturn s = dropTask i (s\<lparr>isInitializing := False\<rparr>)"
| "settle i ok AwaitClear s =
     (if ok then freshPage None
      else dropTask i (s\<lparr>rejections := StoreError # rejections s\<rparr>))"

datatype event =
    Begin "pkg_elem list"
  | Mutation "pkg_elem list"
  | Settle nat bool
  | ResetClick
  | Reload

fun step :: "(string \<Rightarrow> 'k::linorder) \<Rightarrow> event \<Rightarrow> tracker \<Rightarrow> tracker" where
  "step collate (Begin packages) s = beginInitialization collate packages s"
| "step collate (Mutation packages) s = observerCallback collate packages s"
| "step collate (Settle i ok) s = (if i < length (tasks s) then settle i ok (tasks s ! i) s else s)"
| "step collate ResetClick s =
     s\<lparr>isInitialized := False, newCount := 0, offerChangedCount := 0, priceChangedCount := 0,
       tasks := tasks s @ [AwaitClear]\<rparr>"
| "step collate Reload s = freshPage (storage s)"

definition run :: "(string \<Rightarrow> 'k::linorder) \<Rightarrow> event list \<Rightarrow> tracker \<Rightarrow> tracker" where
  "run collate evs s = foldl (\<lambda>s e. step collate e s) s evs"

fun reloads :: "event \<Rightarrow> tracker \<Rightarrow> bool" where
  \<comment> \<open>the events that replace the page: a reload, and a reset whose clear succeeds\<close>
  "reloads Reload s = True"
| "reloads (Settle i ok) s = (ok \<and> i < length (tasks s) \<and> tasks s ! i = AwaitClear)"
| "reloads e s = False"

fun pageKept :: "(string \<Rightarrow> 'k::linorder) \<Rightarrow> event list \<Rightarrow> tracker \<Rightarrow> bool" where
  "pageKept collate [] s = True"
| "pageKept collate (e # es) s = (\<not> reloads e s \<and> pageKept collate es (step collate e s))"

definition inFlight :: "tracker \<Rightarrow> task list" where
  \<comment> \<open>the suspended extract-load-classify-save cycles\<close>
  "inFlight s = filter (\<lambda>t. t \<noteq> AwaitClear) (tasks s)"

subsection \<open>Sample snapshots\<close>

text \<open>Concrete listings on which the theorems below are evaluated.\<close>

definition fooCard :: "string \<Rightarrow> card" where
  "fooCard p = \<lparr> name = ''Foo'', condition = ''NM'', price = p, quantity = ''1'' \<rparr>"

definition aliceOffer :: "string \<Rightarrow> string \<Rightarrow> string \<Rightarrow> package" where
  "aliceOffer t e p =
     \<lparr> username = ''alice'', total = t, efficiencyText = e @ ''% of $100'',
       efficiencyPercentage = e, cards = [fooCard p] \<rparr>"

definition aliceSplit :: "string \<Rightarrow> string \<Rightarrow> package" where
  \<comment> \<open>one card whose name and condition are given\<close>
  "aliceSplit n c =
     \<lparr> username = ''alice'', total = ''$10'', efficiencyText = ''70% of $100'',
       efficiencyPercentage = ''70'',
       cards = [\<lparr> name = n, condition = c, price = ''$10'', quantity = ''1'' \<rparr>] \<rparr>"

text \<open>
  A collation for the examples: names compared by their character codes.
\<close>

definition codeUnits :: "string \<Rightarrow> nat list" where
  "codeUnits s = map of_char s"

definition cardItem :: "string \<Rightarrow> string \<Rightarrow> string \<Rightarrow> li_elem" where
  "cardItem n c p =
     \<lparr> li_more = False, li_a = Some n, li_condition = Some c, li_strong = Some p,
       li_textContent = ''1x '' @ n @ '' '' @ c @ '' '' @ p \<rparr>"

definition aliceListing :: "string \<Rightarrow> string \<Rightarrow> li_elem list \<Rightarrow> pkg_elem" where
  "aliceListing t e items =
     \<lparr> pkg_heading = Some \<lparr> h_a = Some ''alice'', h_strong = Some t,
                            h_efficiency = Some (e @ ''% of $100'') \<rparr>,
       pkg_items = items \<rparr>"



section \<open>Lookup tables\<close>

lemma prevBasePackageMap_snoc:
  "prevBasePackageMap (ps @ [p]) =
     (prevBasePackageMap ps)(getBasePackageKey p \<mapsto>
        \<lparr> percentageKey = getPackageKeyWithPercentage p, fullKey = getFullPackageKey p, pkg = p \<rparr>)"
  by (simp add: prevBasePackageMap_def)

lemma prevBasePackageMap_Nil: "prevBasePackageMap [] = Map.empty"
  by (simp add: prevBasePackageMap_def)

lemma prevBasePackageMap_Some:
  "prevBasePackageMap ps k = Some e \<Longrightarrow>
     pkg e \<in> set ps \<and> getBasePackageKey (pkg e) = k
     \<and> percentageKey e = getPackageKeyWithPercentage (pkg e)
     \<and> fullKey e = getFullPackageKey (pkg e)"
proof (induction ps arbitrary: e rule: rev_induct)
  case Nil
  then show ?case by (simp add: prevBasePackageMap_Nil)
next
  case (snoc p ps)
  show ?case
  proof (cases "k = getBasePackageKey p")
    case True
    with snoc.prems show ?thesis by (auto simp: prevBasePackageMap_snoc)
  next
    case False
    with snoc.prems have "prevBasePackageMap ps k = Some e"
      by (simp add: prevBasePackageMap_snoc)
    from snoc.IH [OF this] show ?thesis by simp
  qed
qed

lemma prevBasePackageMap_None:
  "prevBasePackageMap ps k = None \<longleftrightarrow> k \<notin> getBasePackageKey ` set ps"
  by (induction ps rule: rev_induct) (auto simp: prevBasePackageMap_Nil prevBasePackageMap_snoc)





section \<open>Strings cut at a delimiter\<close>

lemma split_first_char:
  "c \<notin> set a \<Longrightarrow> c \<notin> set a' \<Longrightarrow> a @ c # r = a' @ c # r' \<Longrightarrow> a = a' \<and> r = r'"
proof (induction a arbitrary: a')
  case Nil
  then show ?case by (cases a') auto
next
  case (Cons x xs)
  then show ?case by (cases a') auto
qed

lemma split_last_char:
  assumes "c \<notin> set b" "c \<notin> set b'" "a @ c # b = a' @ c # b'"
  shows "a = a' \<and> b = b'"
proof -
  from assms(3) have "rev (a @ c # b) = rev (a' @ c # b')" by simp
  then have "rev b @ c # rev a = rev b' @ c # rev a'" by simp
  with assms(1,2) have "rev b = rev b' \<and> rev a = rev a'"
    by (intro split_first_char) auto
  then show ?thesis by simp
qed

lemma join_Cons: "join sep (x # xs) = (if xs = [] then x else x @ sep @ join sep xs)"
  by (cases xs) auto

lemma join_char_inj:
  assumes "\<forall>s\<in>set xs. s \<noteq> [] \<and> c \<notin> set s" "\<forall>s\<in>set ys. s \<noteq> [] \<and> c \<notin> set s"
    and "join [c] xs = join [c] ys"
  shows "xs = ys"
  using assms
proof (induction xs arbitrary: ys)
  case Nil
  then show ?case by (cases ys) (auto simp: join_Cons split: if_splits)
next
  case (Cons x xs)
  show ?case
  proof (cases ys)
    case Nil
    with Cons.prems show ?thesis by (auto simp: join_Cons split: if_splits)
  next
    case (Cons y ys')
    have x: "c \<notin> set x" and y: "c \<notin> set y"
      using Cons.prems(1,2) Cons by auto
    show ?thesis
    proof (cases "xs = []")
      case True
      show ?thesis
      proof (cases "ys' = []")
        case True
        with \<open>xs = []\<close> Cons.prems(3) Cons show ?thesis by simp
      next
        case False
        with \<open>xs = []\<close> Cons.prems(3) Cons have "x = y @ c # join [c] ys'"
          by (simp add: join_Cons)
        with x show ?thesis by auto
      qed
    next
      case False
      note xs = this
      show ?thesis
      proof (cases "ys' = []")
        case True
        with xs Cons.prems(3) Cons have "y = x @ c # join [c] xs"
          by (simp add: join_Cons)
        with y show ?thesis by auto
      next
        case False
        with xs Cons.prems(3) Cons have "x @ c # join [c] xs = y @ c # join [c] ys'"
          by (simp add: join_Cons)
        from split_first_char [OF x y this] have "x = y" "join [c] xs = join [c] ys'"
          by simp_all
        moreover have "xs = ys'"
          using Cons.IH [of ys'] Cons.prems(1,2) Cons \<open>join [c] xs = join [c] ys'\<close> by auto
        ultimately show ?thesis using Cons by simp
      qed
    qed
  qed
qed

lemma cardKey_inj:
  assumes "CHR ''x'' \<notin> set (quantity a)" "CHR ''x'' \<notin> set (quantity b)"
    and "CHR '' '' \<notin> set (condition a)" "CHR '' '' \<notin> set (condition b)"
    and "cardKey a = cardKey b"
  shows "quantity a = quantity b \<and> name a = name b \<and> condition a = condition b"
proof -
  from assms(5) have
    "quantity a @ CHR ''x'' # (CHR '' '' # name a @ CHR '' '' # condition a)
       = quantity b @ CHR ''x'' # (CHR '' '' # name b @ CHR '' '' # condition b)"
    by (simp add: cardKey_def)
  from split_first_char [OF assms(1,2) this]
  have q: "quantity a = quantity b"
    and r: "name a @ CHR '' '' # condition a = name b @ CHR '' '' # condition b"
    by simp_all
  from split_last_char [OF assms(3,4) r] q show ?thesis by simp
qed

lemma cardKey_eq:
  "quantity a = quantity b \<Longrightarrow> name a = name b \<Longrightarrow> condition a = condition b \<Longrightarrow>
     cardKey a = cardKey b"
  by (simp add: cardKey_def)

lemma map_cardKey_eq:
  "map (\<lambda>c. (quantity c, name c, condition c)) cs = map (\<lambda>c. (quantity c, name c, condition c)) ds
   \<Longrightarrow> map cardKey cs = map cardKey ds"
proof (induction cs arbitrary: ds)
  case Nil
  then show ?case by simp
next
  case (Cons c cs)
  then obtain d ds' where ds: "ds = d # ds'" by (cases ds) auto
  with Cons.prems have "cardKey c = cardKey d" by (simp add: cardKey_def)
  moreover from Cons.prems ds have "map cardKey cs = map cardKey ds'"
    by (intro Cons.IH) simp
  ultimately show ?case using ds by simp
qed

lemma base_key_cong:
  "username p = username q \<Longrightarrow>
   map (\<lambda>c. (quantity c, name c, condition c)) (cards p)
     = map (\<lambda>c. (quantity c, name c, condition c)) (cards q) \<Longrightarrow>
   getBasePackageKey p = getBasePackageKey q"
  using map_cardKey_eq [of "cards p" "cards q"] by (simp add: getBasePackageKey_def)

lemma map_cardKey_inj:
  assumes "\<forall>c\<in>set cs \<union> set ds. CHR ''x'' \<notin> set (quantity c) \<and> CHR '' '' \<notin> set (condition c)"
    and "map cardKey cs = map cardKey ds"
  shows "map (\<lambda>c. (quantity c, name c, condition c)) cs = map (\<lambda>c. (quantity c, name c, condition c)) ds"
  using assms
proof (induction cs arbitrary: ds)
  case Nil
  then show ?case by simp
next
  case (Cons c cs)
  then obtain d ds' where ds: "ds = d # ds'" by (cases ds) auto
  with Cons.prems have k: "cardKey c = cardKey d" and r: "map cardKey cs = map cardKey ds'"
    by simp_all
  have "quantity c = quantity d \<and> name c = name d \<and> condition c = condition d"
    using Cons.prems(1) ds by (intro cardKey_inj [OF _ _ _ _ k]) auto
  moreover have "map (\<lambda>c. (quantity c, name c, condition c)) cs = map (\<lambda>c. (quantity c, name c, condition c)) ds'"
    using Cons.prems(1) ds by (intro Cons.IH [OF _ r]) auto
  ultimately show ?case using ds by simp
qed

lemma cardKey_nonempty: "cardKey c \<noteq> []"
  by (simp add: cardKey_def)

lemma cardKey_no_bar:
  "CHR ''|'' \<notin> set (quantity c) \<Longrightarrow> CHR ''|'' \<notin> set (name c) \<Longrightarrow> CHR ''|'' \<notin> set (condition c)
   \<Longrightarrow> CHR ''|'' \<notin> set (cardKey c)"
  by (simp add: cardKey_def)


section \<open>Classification lemmas\<close>

lemma analyzePackage_New:
  "prevMap (getBasePackageKey c) = None \<Longrightarrow>
   analyzePackage prevMap c = \<lparr> tag = New, oldPackageTotal = None, oldPriceInfo = map (\<lambda>c. None) (cards c) \<rparr>"
  by (simp add: analyzePackage_def)

lemma classify_Nil_prev:
  "classify cur [] = map (\<lambda>c. \<lparr> tag = New, oldPackageTotal = None, oldPriceInfo = map (\<lambda>c. None) (cards c) \<rparr>) cur"
  by (simp add: classify_def analyzePackage_New prevBasePackageMap_Nil)


lemma analyzePackage_self:
  assumes "\<forall>a\<in>set s. \<forall>b\<in>set s. getBasePackageKey a = getBasePackageKey b
            \<longrightarrow> getPackageKeyWithPercentage a = getPackageKeyWithPercentage b
              \<and> getFullPackageKey a = getFullPackageKey b"
    and "c \<in> set s"
  shows "analyzePackage (prevBasePackageMap s) c
    = \<lparr> tag = Unchanged, oldPackageTotal = None, oldPriceInfo = map (\<lambda>c. None) (cards c) \<rparr>"
proof -
  from assms(2) have "prevBasePackageMap s (getBasePackageKey c) \<noteq> None"
    by (simp add: prevBasePackageMap_None)
  then obtain e where e: "prevBasePackageMap s (getBasePackageKey c) = Some e" by blast
  from prevBasePackageMap_Some [OF e]
  have mem: "pkg e \<in> set s" and bk: "getBasePackageKey (pkg e) = getBasePackageKey c"
    and pk: "percentageKey e = getPackageKeyWithPercentage (pkg e)"
    and fk: "fullKey e = getFullPackageKey (pkg e)"
    by simp_all
  from assms(1) mem assms(2) bk
  have "getPackageKeyWithPercentage (pkg e) = getPackageKeyWithPercentage c
      \<and> getFullPackageKey (pkg e) = getFullPackageKey c"
    by blast
  with pk fk have "percentageKey e = getPackageKeyWithPercentage c"
    "fullKey e = getFullPackageKey c"
    by simp_all
  with e show ?thesis by (simp add: analyzePackage_def)
qed

lemma classify_self:
  assumes "\<forall>a\<in>set s. \<forall>b\<in>set s. getBasePackageKey a = getBasePackageKey b
            \<longrightarrow> getPackageKeyWithPercentage a = getPackageKeyWithPercentage b
              \<and> getFullPackageKey a = getFullPackageKey b"
  shows "classify s s
    = map (\<lambda>c. \<lparr> tag = Unchanged, oldPackageTotal = None, oldPriceInfo = map (\<lambda>c. None) (cards c) \<rparr>) s"
  unfolding classify_def using analyzePackage_self [OF assms] by (intro map_cong) simp_all


section \<open>Controller runs\<close>

lemma mapParse_Nil_iff: "mapParse collate ps = Inr [] \<longleftrightarrow> ps = []"
  by (cases ps) (auto split: sum.splits)

lemma run_Cons: "run collate (e # es) s = run collate es (step collate e s)"
  by (simp add: run_def)

lemma run_Nil: "run collate [] s = s"
  by (simp add: run_def)

lemma begin_fresh:
  assumes "mapParse collate packages = Inr cur" "packages \<noteq> []"
  shows "step collate (Begin packages) (freshPage st)
     = (freshPage st)\<lparr>isInitializing := True, tasks := [AwaitLoad cur]\<rparr>"
  using assms by (simp add: beginInitialization_def initializeState_def freshPage_def)

lemma load_done:
  "step collate (Settle 0 True) ((freshPage st)\<lparr>isInitializing := True, tasks := [AwaitLoad cur]\<rparr>)
   = (freshPage st)\<lparr>isInitializing := True,
        newCount := countTag New (classify cur (case st of None \<Rightarrow> [] | Some ps \<Rightarrow> ps)),
        offerChangedCount := countTag OfferChanged (classify cur (case st of None \<Rightarrow> [] | Some ps \<Rightarrow> ps)),
        priceChangedCount := countTag PriceChanged (classify cur (case st of None \<Rightarrow> [] | Some ps \<Rightarrow> ps)),
        annotations := classify cur (case st of None \<Rightarrow> [] | Some ps \<Rightarrow> ps),
        tasks := [AwaitSave cur]\<rparr>"
  by (simp add: freshPage_def Let_def)

lemma full_cycle:
  assumes "mapParse collate packages = Inr cur" "packages \<noteq> []"
  shows "run collate [Begin packages, Settle 0 True, Settle 0 True, Settle 0 True] (freshPage st)
    = (freshPage st)\<lparr>isInitialized := True,
        newCount := countTag New (classify cur (case st of None \<Rightarrow> [] | Some ps \<Rightarrow> ps)),
        offerChangedCount := countTag OfferChanged (classify cur (case st of None \<Rightarrow> [] | Some ps \<Rightarrow> ps)),
        priceChangedCount := countTag PriceChanged (classify cur (case st of None \<Rightarrow> [] | Some ps \<Rightarrow> ps)),
        annotations := classify cur (case st of None \<Rightarrow> [] | Some ps \<Rightarrow> ps),
        storage := Some cur\<rparr>"
  using assms
  by (simp add: run_def beginInitialization_def initializeState_def freshPage_def Let_def dropTask_def)

lemma empty_cycle:
  "run collate [Begin [], Settle 0 True, Settle 0 True, Settle 0 True] (freshPage st) = freshPage st"
  by (simp add: run_def beginInitialization_def initializeState_def freshPage_def dropTask_def)

section \<open>Stable sorting of a permuted list\<close>

lemma filter_key_class:
  assumes "k \<in> set zs" and "\<forall>x\<in>set zs. \<forall>y\<in>set zs. f x = f y \<longrightarrow> x = y"
  shows "filter (\<lambda>x. f k = f x) zs = replicate (count (mset zs) k) k"
proof -
  have "filter (\<lambda>x. f k = f x) zs = filter (\<lambda>x. k = x) zs"
    using assms by (intro filter_cong) auto
  also have "\<dots> = replicate (length (filter (\<lambda>x. k = x) zs)) k"
    by (rule replicate_length_same [symmetric]) simp
  also have "length (filter (\<lambda>x. k = x) zs) = count (mset zs) k"
    by (simp add: count_mset count_list_eq_length_filter)
  finally show ?thesis .
qed

lemma sort_key_of_permutation:
  assumes m: "mset xs = mset ys"
    and inj: "\<forall>x\<in>set xs. \<forall>y\<in>set xs. f x = f y \<longrightarrow> x = y"
  shows "sort_key f xs = sort_key f ys"
proof (rule properties_for_sort_key)
  show "mset (sort_key f ys) = mset xs" using m by simp
  show "sorted (map f (sort_key f ys))" by simp
  fix k assume "k \<in> set (sort_key f ys)"
  then have kx: "k \<in> set xs" using m by (metis set_sort mset_eq_setD)
  have sx: "set (sort_key f ys) = set xs" using m by (metis set_sort mset_eq_setD)
  have "filter (\<lambda>x. f k = f x) (sort_key f ys)
      = replicate (count (mset (sort_key f ys)) k) k"
    using kx inj sx by (intro filter_key_class) simp_all
  also have "\<dots> = replicate (count (mset xs) k) k" using m by simp
  also have "\<dots> = filter (\<lambda>x. f k = f x) xs"
    using kx inj by (intro filter_key_class [symmetric])
  finally show "filter (\<lambda>x. f k = f x) (sort_key f ys) = filter (\<lambda>x. f k = f x) xs" .
qed

lemma mset_parsed_items:
  "mset xs = mset ys \<Longrightarrow>
   mset (map parseCard (filter (\<lambda>li. \<not> li_more li) xs))
     = mset (map parseCard (filter (\<lambda>li. \<not> li_more li) ys))"
  by (metis mset_filter mset_map)

section \<open>Extraction with missing parts\<close>

lemma parse_missing_parts:
  "parsePackage collate
     \<lparr> pkg_heading = Some \<lparr> h_a = None, h_strong = None, h_efficiency = None \<rparr>,
       pkg_items = [\<lparr> li_more = False, li_a = None, li_condition = None, li_strong = None,
                      li_textContent = [] \<rparr>] \<rparr>
   = Inr \<lparr> username = [], total = [], efficiencyText = [], efficiencyPercentage = [],
           cards = [\<lparr> name = [], condition = [], price = [], quantity = ''1'' \<rparr>] \<rparr>"
  by (simp add: parsePackage_def parseCard_def textOrEmpty_def)

lemma parse_with_heading:
  "pkg_heading el = Some h \<Longrightarrow> \<exists>p. parsePackage collate el = Inr p"
  by (simp add: parsePackage_def Let_def)

section \<open>The cycles in flight\<close>

lemma run_snoc: "run collate (evs @ [e]) s = step collate e (run collate evs s)"
  by (simp add: run_def)

lemma inFlight_fresh: "inFlight (freshPage st) = []"
  by (simp add: inFlight_def freshPage_def)

lemma inFlight_drop_length:
  assumes "i < length (tasks s)"
  shows "length (inFlight (dropTask i s))
    = length (inFlight s) - (if tasks s ! i = AwaitClear then 0 else 1)"
proof -
  have "tasks s = take i (tasks s) @ tasks s ! i # drop (Suc i) (tasks s)"
    using assms by (rule id_take_nth_drop)
  then have "filter (\<lambda>t. t \<noteq> AwaitClear) (tasks s)
      = filter (\<lambda>t. t \<noteq> AwaitClear) (take i (tasks s) @ tasks s ! i # drop (Suc i) (tasks s))"
    by simp
  then show ?thesis
    by (simp add: inFlight_def dropTask_def)
qed

lemma inFlight_update_length:
  assumes "i < length (tasks s)" "tasks s ! i \<noteq> AwaitClear" "t \<noteq> AwaitClear"
  shows "length (filter (\<lambda>t. t \<noteq> AwaitClear) ((tasks s)[i := t])) = length (inFlight s)"
proof -
  have a: "tasks s = take i (tasks s) @ tasks s ! i # drop (Suc i) (tasks s)"
    using assms(1) by (rule id_take_nth_drop)
  have b: "(tasks s)[i := t] = take i (tasks s) @ t # drop (Suc i) (tasks s)"
    using assms(1) by (rule upd_conv_take_nth_drop)
  have "length (inFlight s)
      = length (filter (\<lambda>t. t \<noteq> AwaitClear) (take i (tasks s) @ tasks s ! i # drop (Suc i) (tasks s)))"
    using a by (simp add: inFlight_def)
  then show ?thesis using assms(2,3) by (simp add: b)
qed

lemma begin_closed:
  "isInitialized s \<or> isInitializing s \<Longrightarrow>
   step collate (Begin ps) s = s \<and> step collate (Mutation ps) s = s"
  by (auto simp: beginInitialization_def observerCallback_def)

lemma begin_open:
  assumes "\<not> isInitializing s" "inFlight s = []"
  shows "length (inFlight (beginInitialization collate ps s)) \<le> 1
    \<and> (inFlight (beginInitialization collate ps s) \<noteq> [] \<longrightarrow>
         isInitializing (beginInitialization collate ps s))"
  using assms
  by (auto simp: beginInitialization_def initializeState_def inFlight_def Let_def
      split: sum.splits)

lemma cycle_invariant_step:
  assumes "length (inFlight s) \<le> 1" "inFlight s \<noteq> [] \<longrightarrow> isInitializing s"
  shows "length (inFlight (step collate e s)) \<le> 1
    \<and> (inFlight (step collate e s) \<noteq> [] \<longrightarrow> isInitializing (step collate e s))"
proof (cases e)
  case (Begin ps)
  show ?thesis
  proof (cases "isInitialized s \<or> isInitializing s")
    case True
    with assms Begin show ?thesis using begin_closed [of s collate ps] by simp
  next
    case False
    with assms have "inFlight s = []" "\<not> isInitializing s" by auto
    with Begin show ?thesis using begin_open [of s collate ps] by simp
  qed
next
  case (Mutation ps)
  show ?thesis
  proof (cases "isInitialized s \<or> isInitializing s")
    case True
    with assms Mutation show ?thesis using begin_closed [of s collate ps] by simp
  next
    case False
    with assms have "inFlight s = []" "\<not> isInitializing s" by auto
    with Mutation False show ?thesis
      using begin_open [of s collate ps] by (simp add: observerCallback_def)
  qed
next
  case (Settle i ok)
  show ?thesis
  proof (cases "i < length (tasks s)")
    case False
    with assms Settle show ?thesis by simp
  next
    case True
    note i = this
    show ?thesis
    proof (cases "tasks s ! i")
      case (AwaitLoad cur)
      then have n: "tasks s ! i \<noteq> AwaitClear" by simp
      from i n have ne: "inFlight s \<noteq> []"
        by (auto simp: inFlight_def filter_empty_conv)
      show ?thesis
      proof (cases ok)
        case True
        with Settle i AwaitLoad assms ne show ?thesis
          using inFlight_update_length [OF i n, of "AwaitSave cur"]
          by (simp add: inFlight_def Let_def)
      next
        case False
        with Settle i AwaitLoad assms ne show ?thesis
          using inFlight_drop_length [OF i, of ] n
          by (auto simp: dropTask_def inFlight_def)
      qed
    next
      case (AwaitSave cur)
      then have n: "tasks s ! i \<noteq> AwaitClear" by simp
      from i n have ne: "inFlight s \<noteq> []"
        by (auto simp: inFlight_def filter_empty_conv)
      show ?thesis
      proof (cases ok)
        case True
        with Settle i AwaitSave assms ne show ?thesis
          using inFlight_update_length [OF i n, of AwaitReturn]
          by (simp add: inFlight_def)
      next
        case False
        with Settle i AwaitSave assms ne show ?thesis
          using inFlight_drop_length [OF i] n
          by (auto simp: dropTask_def inFlight_def)
      qed
    next
      case AwaitReturn
      then have n: "tasks s ! i \<noteq> AwaitClear" by simp
      from i n have ne: "inFlight s \<noteq> []"
        by (auto simp: inFlight_def filter_empty_conv)
      with assms(1) have "length (inFlight s) = 1"
        by (cases "inFlight s") auto
      with inFlight_drop_length [OF i] n have "length (inFlight (dropTask i s)) = 0" by simp
      then have "inFlight (dropTask i (s\<lparr>isInitializing := False\<rparr>)) = []"
        by (simp add: inFlight_def dropTask_def)
      with Settle i AwaitReturn show ?thesis by simp
    next
      case AwaitClear
      show ?thesis
      proof (cases ok)
        case True
        with Settle i AwaitClear show ?thesis by (simp add: inFlight_fresh)
      next
        case False
        from inFlight_drop_length [OF i] AwaitClear
        have "length (inFlight (dropTask i s)) = length (inFlight s)" by simp
        moreover have "inFlight (dropTask i (s\<lparr>rejections := StoreError # rejections s\<rparr>))
            = inFlight (dropTask i s)"
          by (simp add: inFlight_def dropTask_def)
        moreover have "isInitializing (dropTask i (s\<lparr>rejections := StoreError # rejections s\<rparr>))
            = isInitializing s"
          by (simp add: dropTask_def)
        ultimately show ?thesis using Settle i AwaitClear False assms
          by (cases "inFlight (dropTask i s)") auto
      qed
    qed
  qed
next
  case ResetClick
  with assms show ?thesis by (simp add: inFlight_def)
next
  case Reload
  then show ?thesis by (simp add: inFlight_fresh)
qed

lemma cycle_invariant_run:
  "length (inFlight (run collate evs (freshPage st))) \<le> 1
   \<and> (inFlight (run collate evs (freshPage st)) \<noteq> [] \<longrightarrow>
        isInitializing (run collate evs (freshPage st)))"
proof (induction evs rule: rev_induct)
  case Nil
  show ?case by (simp add: run_def inFlight_fresh)
next
  case (snoc e evs)
  then show ?case
    unfolding run_snoc by (intro cycle_invariant_step) simp_all
qed

section \<open>A controller whose guard stays set\<close>

lemma blocked_step:
  assumes "isInitializing s" "inFlight s = []" "\<not> reloads e s"
  shows "isInitializing (step collate e s) \<and> inFlight (step collate e s) = []
    \<and> storage (step collate e s) = storage s"
proof (cases e)
  case (Begin ps)
  with assms show ?thesis using begin_closed [of s collate ps] by simp
next
  case (Mutation ps)
  with assms show ?thesis using begin_closed [of s collate ps] by simp
next
  case (Settle i ok)
  show ?thesis
  proof (cases "i < length (tasks s)")
    case False
    with assms Settle show ?thesis by simp
  next
    case True
    from assms(2) have "\<forall>t\<in>set (tasks s). t = AwaitClear"
      by (simp add: inFlight_def filter_empty_conv)
    with True have c: "tasks s ! i = AwaitClear" by simp
    with assms(3) Settle True have ok: "\<not> ok" by simp
    from inFlight_drop_length [OF True] assms(2)
    have "inFlight (dropTask i s) = []" by simp
    then have "inFlight (dropTask i (s\<lparr>rejections := StoreError # rejections s\<rparr>)) = []"
      by (simp add: inFlight_def dropTask_def)
    with Settle True c ok assms(1) show ?thesis by (simp add: dropTask_def)
  qed
next
  case ResetClick
  with assms show ?thesis by (simp add: inFlight_def)
next
  case Reload
  with assms show ?thesis by simp
qed

lemma blocked_run:
  "isInitializing s \<Longrightarrow> inFlight s = [] \<Longrightarrow> pageKept collate evs s \<Longrightarrow>
   isInitializing (run collate evs s) \<and> inFlight (run collate evs s) = []
   \<and> storage (run collate evs s) = storage s"
proof (induction evs arbitrary: s)
  case Nil
  then show ?case by (simp add: run_Nil)
next
  case (Cons e evs)
  from Cons.prems have k: "\<not> reloads e s" "pageKept collate evs (step collate e s)" by simp_all
  from blocked_step [OF Cons.prems(1,2) k(1), of collate]
  have b: "isInitializing (step collate e s)" "inFlight (step collate e s) = []"
    "storage (step collate e s) = storage s" by simp_all
  from Cons.IH [OF b(1,2) k(2)] b(3) show ?case by (simp add: run_Cons)
qed

lemma failed_store_step:
  assumes "length (inFlight s) \<le> 1" "inFlight s \<noteq> [] \<longrightarrow> isInitializing s"
    and i: "i < length (tasks s)"
    and t: "tasks s ! i = AwaitLoad cur \<or> tasks s ! i = AwaitSave cur"
  shows "step collate (Settle i False) s = dropTask i (s\<lparr>rejections := StoreError # rejections s\<rparr>)
    \<and> isInitializing (step collate (Settle i False) s)
    \<and> inFlight (step collate (Settle i False) s) = []"
proof -
  from t have n: "tasks s ! i \<noteq> AwaitClear" by auto
  with i have ne: "inFlight s \<noteq> []" by (auto simp: inFlight_def filter_empty_conv)
  with assms(1) have "length (inFlight s) = 1" by (cases "inFlight s") auto
  with inFlight_drop_length [OF i] n have "length (inFlight (dropTask i s)) = 0" by simp
  then have d: "inFlight (dropTask i (s\<lparr>rejections := StoreError # rejections s\<rparr>)) = []"
    by (simp add: inFlight_def dropTask_def)
  have eq: "step collate (Settle i False) s
      = dropTask i (s\<lparr>rejections := StoreError # rejections s\<rparr>)"
    using i t by auto
  from assms(2) ne have "isInitializing s" by simp
  then have init: "isInitializing (dropTask i (s\<lparr>rejections := StoreError # rejections s\<rparr>))"
    by (simp add: dropTask_def)
  show ?thesis
    unfolding eq using init d by simp
qed

section \<open>Evaluation\<close>

lemmas key_defs = getBasePackageKey_def getPackageKeyWithPercentage_def getFullPackageKey_def
  cardKey_def cardKeyWithPrice_def

lemmas sample_defs = aliceOffer_def fooCard_def

lemmas parse_defs = parsePackage_def aliceListing_def cardItem_def parseCard_def textOrEmpty_def
  matchAt_def isDigit_def

section \<open>Claims\<close>

text \<open>
  C1. When the base key of a current snapshot has an entry in the map built from the
  previous snapshots and the percentage key of the matched previous snapshot differs
  from the current one, the listing is classified \<open>OfferChanged\<close>, whatever the full
  keys are, and the previous value attached is the previous snapshot's total text and
  efficiency text; no card receives an old price.
\<close>

theorem offer_changed_first:
  assumes "i < length currentPackages"
    and "prevBasePackageMap prevPackages (getBasePackageKey (currentPackages ! i)) = Some prev"
    and "getPackageKeyWithPercentage (pkg prev) \<noteq> getPackageKeyWithPercentage (currentPackages ! i)"
  shows "tag (classify currentPackages prevPackages ! i) = OfferChanged
    \<and> oldPackageTotal (classify currentPackages prevPackages ! i)
        = Some (total (pkg prev), efficiencyText (pkg prev))
    \<and> oldPriceInfo (classify currentPackages prevPackages ! i)
        = map (\<lambda>c. None) (cards (currentPackages ! i))"
proof -
  from prevBasePackageMap_Some [OF assms(2)]
  have "percentageKey prev = getPackageKeyWithPercentage (pkg prev)" by simp
  with assms show ?thesis
    by (simp add: classify_def analyzePackage_def)
qed

theorem offer_changed_first_witness:
  "0 < length [aliceOffer ''$85'' ''85'' ''$85'']
   \<and> prevBasePackageMap [aliceOffer ''$70'' ''70'' ''$70'']
        (getBasePackageKey ([aliceOffer ''$85'' ''85'' ''$85''] ! 0))
       = Some \<lparr> percentageKey = ''alice-1x Foo NM-70'',
                  fullKey = ''alice-$70-70-1x Foo NM $70'',
                  pkg = aliceOffer ''$70'' ''70'' ''$70'' \<rparr>
   \<and> getPackageKeyWithPercentage (aliceOffer ''$70'' ''70'' ''$70'')
       \<noteq> getPackageKeyWithPercentage ([aliceOffer ''$85'' ''85'' ''$85''] ! 0)
   \<and> tag (classify [aliceOffer ''$85'' ''85'' ''$85''] [aliceOffer ''$70'' ''70'' ''$70''] ! 0)
       = OfferChanged
   \<and> oldPackageTotal
         (classify [aliceOffer ''$85'' ''85'' ''$85''] [aliceOffer ''$70'' ''70'' ''$70''] ! 0)
       = Some (''$70'', ''70% of $100'')"
proof -
  have m: "prevBasePackageMap [aliceOffer ''$70'' ''70'' ''$70'']
        (getBasePackageKey ([aliceOffer ''$85'' ''85'' ''$85''] ! 0))
       = Some \<lparr> percentageKey = ''alice-1x Foo NM-70'',
                  fullKey = ''alice-$70-70-1x Foo NM $70'',
                  pkg = aliceOffer ''$70'' ''70'' ''$70'' \<rparr>"
    by (simp add: prevBasePackageMap_def getBasePackageKey_def getPackageKeyWithPercentage_def
        getFullPackageKey_def cardKey_def cardKeyWithPrice_def aliceOffer_def fooCard_def)
  have d: "getPackageKeyWithPercentage
             (pkg \<lparr> percentageKey = ''alice-1x Foo NM-70'',
                     fullKey = ''alice-$70-70-1x Foo NM $70'',
                     pkg = aliceOffer ''$70'' ''70'' ''$70'' \<rparr>)
       \<noteq> getPackageKeyWithPercentage ([aliceOffer ''$85'' ''85'' ''$85''] ! 0)"
    by (simp add: getBasePackageKey_def getPackageKeyWithPercentage_def cardKey_def
        aliceOffer_def fooCard_def)
  have l: "0 < length [aliceOffer ''$85'' ''85'' ''$85'']" by simp
  from offer_changed_first [OF l m d] m d show ?thesis
    by (simp add: aliceOffer_def)
qed

text \<open>
  C7 (as amended). Snapshots that are equal field by field have equal base, percentage
  and full keys. Two snapshots with equal base keys have the same seller name and, card
  by card, the same quantity, name and condition, provided that no seller name contains
  \<open>-\<close>, no quantity contains \<open>x\<close>, no condition contains a space, and no quantity,
  name or condition contains \<open>|\<close>.
\<close>

theorem base_key_injective_on_safe_fields:
  "(username p = username q \<and> total p = total q \<and> efficiencyText p = efficiencyText q
      \<and> efficiencyPercentage p = efficiencyPercentage q \<and> cards p = cards q
    \<longrightarrow> getBasePackageKey p = getBasePackageKey q
      \<and> getPackageKeyWithPercentage p = getPackageKeyWithPercentage q
      \<and> getFullPackageKey p = getFullPackageKey q)
   \<and> (CHR ''-'' \<notin> set (username p) \<and> CHR ''-'' \<notin> set (username q)
      \<and> (\<forall>c\<in>set (cards p) \<union> set (cards q).
            CHR ''x'' \<notin> set (quantity c) \<and> CHR ''|'' \<notin> set (quantity c)
          \<and> CHR ''|'' \<notin> set (name c)
          \<and> CHR '' '' \<notin> set (condition c) \<and> CHR ''|'' \<notin> set (condition c))
      \<and> getBasePackageKey p = getBasePackageKey q
    \<longrightarrow> username p = username q
      \<and> map (\<lambda>c. (quantity c, name c, condition c)) (cards p)
          = map (\<lambda>c. (quantity c, name c, condition c)) (cards q))"
proof (intro conjI impI)
  assume "username p = username q \<and> total p = total q \<and> efficiencyText p = efficiencyText q
      \<and> efficiencyPercentage p = efficiencyPercentage q \<and> cards p = cards q"
  then show "getBasePackageKey p = getBasePackageKey q"
    and "getPackageKeyWithPercentage p = getPackageKeyWithPercentage q"
    and "getFullPackageKey p = getFullPackageKey q"
    by (simp_all add: getBasePackageKey_def getPackageKeyWithPercentage_def getFullPackageKey_def)
next
  assume a: "CHR ''-'' \<notin> set (username p) \<and> CHR ''-'' \<notin> set (username q)
      \<and> (\<forall>c\<in>set (cards p) \<union> set (cards q).
            CHR ''x'' \<notin> set (quantity c) \<and> CHR ''|'' \<notin> set (quantity c)
          \<and> CHR ''|'' \<notin> set (name c)
          \<and> CHR '' '' \<notin> set (condition c) \<and> CHR ''|'' \<notin> set (condition c))
      \<and> getBasePackageKey p = getBasePackageKey q"
  then have "username p @ CHR ''-'' # join ''|'' (map cardKey (cards p))
      = username q @ CHR ''-'' # join ''|'' (map cardKey (cards q))"
    by (simp add: getBasePackageKey_def)
  from split_first_char [OF _ _ this] a have u: "username p = username q"
    and j: "join ''|'' (map cardKey (cards p)) = join ''|'' (map cardKey (cards q))"
    by simp_all
  from a have safe: "\<And>c. c \<in> set (cards p) \<union> set (cards q) \<Longrightarrow>
            CHR ''x'' \<notin> set (quantity c) \<and> CHR ''|'' \<notin> set (quantity c)
          \<and> CHR ''|'' \<notin> set (name c)
          \<and> CHR '' '' \<notin> set (condition c) \<and> CHR ''|'' \<notin> set (condition c)"
    by blast
  have "map cardKey (cards p) = map cardKey (cards q)"
  proof (rule join_char_inj [OF _ _ j])
    show "\<forall>s\<in>set (map cardKey (cards p)). s \<noteq> [] \<and> CHR ''|'' \<notin> set s"
      using safe by (simp add: cardKey_nonempty cardKey_no_bar)
    show "\<forall>s\<in>set (map cardKey (cards q)). s \<noteq> [] \<and> CHR ''|'' \<notin> set s"
      using safe by (simp add: cardKey_nonempty cardKey_no_bar)
  qed
  then have "map (\<lambda>c. (quantity c, name c, condition c)) (cards p)
          = map (\<lambda>c. (quantity c, name c, condition c)) (cards q)"
    using safe by (intro map_cardKey_inj) blast+
  with u show "username p = username q"
    and "map (\<lambda>c. (quantity c, name c, condition c)) (cards p)
          = map (\<lambda>c. (quantity c, name c, condition c)) (cards q)"
    by simp_all
qed

theorem base_key_injective_on_safe_fields_witness:
  "CHR ''-'' \<notin> set (username (aliceOffer ''$70'' ''70'' ''$70''))
   \<and> CHR ''-'' \<notin> set (username (aliceOffer ''$85'' ''85'' ''$71''))
   \<and> getBasePackageKey (aliceOffer ''$70'' ''70'' ''$70'')
       = getBasePackageKey (aliceOffer ''$85'' ''85'' ''$71'')
   \<and> username (aliceOffer ''$70'' ''70'' ''$70'') = username (aliceOffer ''$85'' ''85'' ''$71'')
   \<and> map (\<lambda>c. (quantity c, name c, condition c)) (cards (aliceOffer ''$70'' ''70'' ''$70''))
       = map (\<lambda>c. (quantity c, name c, condition c)) (cards (aliceOffer ''$85'' ''85'' ''$71''))
   \<and> getFullPackageKey (aliceOffer ''$70'' ''70'' ''$70'')
       = getFullPackageKey (aliceOffer ''$70'' ''70'' ''$70'')"
proof -
  have safe: "\<forall>c\<in>set (cards (aliceOffer ''$70'' ''70'' ''$70''))
            \<union> set (cards (aliceOffer ''$85'' ''85'' ''$71'')).
          CHR ''x'' \<notin> set (quantity c) \<and> CHR ''|'' \<notin> set (quantity c)
        \<and> CHR ''|'' \<notin> set (name c)
        \<and> CHR '' '' \<notin> set (condition c) \<and> CHR ''|'' \<notin> set (condition c)"
    by (simp add: aliceOffer_def fooCard_def)
  have dash: "CHR ''-'' \<notin> set (username (aliceOffer ''$70'' ''70'' ''$70''))"
    "CHR ''-'' \<notin> set (username (aliceOffer ''$85'' ''85'' ''$71''))"
    by (simp_all add: aliceOffer_def)
  have key: "getBasePackageKey (aliceOffer ''$70'' ''70'' ''$70'')
       = getBasePackageKey (aliceOffer ''$85'' ''85'' ''$71'')"
    by (simp add: aliceOffer_def fooCard_def getBasePackageKey_def cardKey_def)
  from base_key_injective_on_safe_fields
    [of "aliceOffer ''$70'' ''70'' ''$70''" "aliceOffer ''$85'' ''85'' ''$71''"]
    safe dash key
  have "username (aliceOffer ''$70'' ''70'' ''$70'') = username (aliceOffer ''$85'' ''85'' ''$71'')
   \<and> map (\<lambda>c. (quantity c, name c, condition c)) (cards (aliceOffer ''$70'' ''70'' ''$70''))
       = map (\<lambda>c. (quantity c, name c, condition c)) (cards (aliceOffer ''$85'' ''85'' ''$71''))"
    by blast
  with dash key show ?thesis by simp
qed

theorem base_key_collision:
  "name (hd (cards (aliceSplit ''Foo'' ''NM X''))) \<noteq> name (hd (cards (aliceSplit ''Foo NM'' ''X'')))
   \<and> condition (hd (cards (aliceSplit ''Foo'' ''NM X'')))
       \<noteq> condition (hd (cards (aliceSplit ''Foo NM'' ''X'')))
   \<and> getBasePackageKey (aliceSplit ''Foo'' ''NM X'') = getBasePackageKey (aliceSplit ''Foo NM'' ''X'')"
  by (simp add: aliceSplit_def getBasePackageKey_def cardKey_def)




text \<open>
  C3. A current snapshot whose base key is the base key of no previous snapshot is
  classified \<open>New\<close> with nothing attached; and when the reset handler's
  \<open>clear()\<close> has succeeded, the store is empty and the next cycle on the reloaded page
  classifies every listing \<open>New\<close>.
\<close>

theorem unmatched_is_new:
  "(\<forall>i<length currentPackages.
      getBasePackageKey (currentPackages ! i) \<notin> getBasePackageKey ` set prevPackages
      \<longrightarrow> classify currentPackages prevPackages ! i
          = \<lparr> tag = New, oldPackageTotal = None,
              oldPriceInfo = map (\<lambda>c. None) (cards (currentPackages ! i)) \<rparr>)
   \<and> (j < length (tasks s) \<and> tasks s ! j = AwaitClear
        \<and> mapParse collate packages = Inr currentPackages \<and> packages \<noteq> []
      \<longrightarrow> storage (step collate (Settle j True) s) = None
        \<and> map tag (annotations
              (run collate [Settle j True, Begin packages, Settle 0 True] s))
            = replicate (length currentPackages) New)"
proof (intro conjI allI impI)
  fix i
  assume "i < length currentPackages"
    and "getBasePackageKey (currentPackages ! i) \<notin> getBasePackageKey ` set prevPackages"
  then show "classify currentPackages prevPackages ! i
          = \<lparr> tag = New, oldPackageTotal = None,
              oldPriceInfo = map (\<lambda>c. None) (cards (currentPackages ! i)) \<rparr>"
    by (simp add: classify_def analyzePackage_New prevBasePackageMap_None)
next
  assume a: "j < length (tasks s) \<and> tasks s ! j = AwaitClear
        \<and> mapParse collate packages = Inr currentPackages \<and> packages \<noteq> []"
  then have c: "step collate (Settle j True) s = freshPage None"
    by simp
  then show "storage (step collate (Settle j True) s) = None"
    by (simp add: freshPage_def)
  from a have b: "step collate (Begin packages) (freshPage None)
      = (freshPage None)\<lparr>isInitializing := True, tasks := [AwaitLoad currentPackages]\<rparr>"
    by (intro begin_fresh) simp_all
  have "run collate [Settle j True, Begin packages, Settle 0 True] s
      = step collate (Settle 0 True)
          ((freshPage None)\<lparr>isInitializing := True, tasks := [AwaitLoad currentPackages]\<rparr>)"
    by (simp only: run_Cons run_Nil c b)
  then show "map tag (annotations (run collate [Settle j True, Begin packages, Settle 0 True] s))
            = replicate (length currentPackages) New"
    by (simp only: load_done) (simp add: classify_Nil_prev map_replicate_const comp_def)
qed

theorem unmatched_is_new_witness:
  "0 < length [aliceOffer ''$10'' ''70'' ''$10'']
   \<and> getBasePackageKey ([aliceOffer ''$10'' ''70'' ''$10''] ! 0)
       \<notin> getBasePackageKey ` set [aliceSplit ''Bar'' ''LP'']
   \<and> classify [aliceOffer ''$10'' ''70'' ''$10''] [aliceSplit ''Bar'' ''LP''] ! 0
       = \<lparr> tag = New, oldPackageTotal = None, oldPriceInfo = [None] \<rparr>
   \<and> 0 < length (tasks (step codeUnits ResetClick (freshPage (Some [aliceOffer ''$10'' ''70'' ''$10'']))))
   \<and> tasks (step codeUnits ResetClick (freshPage (Some [aliceOffer ''$10'' ''70'' ''$10'']))) ! 0
       = AwaitClear
   \<and> mapParse codeUnits [aliceListing ''$10'' ''70'' [cardItem ''Foo'' ''NM'' ''$10'']]
       = Inr [aliceOffer ''$10'' ''70'' ''$10'']
   \<and> map tag (annotations
         (run codeUnits
            [Settle 0 True, Begin [aliceListing ''$10'' ''70'' [cardItem ''Foo'' ''NM'' ''$10'']],
             Settle 0 True]
            (step codeUnits ResetClick (freshPage (Some [aliceOffer ''$10'' ''70'' ''$10''])))))
       = [New]"
proof -
  have a: "getBasePackageKey ([aliceOffer ''$10'' ''70'' ''$10''] ! 0)
       \<notin> getBasePackageKey ` set [aliceSplit ''Bar'' ''LP'']"
    by (simp add: key_defs sample_defs aliceSplit_def)
  have b: "0 < length (tasks (step codeUnits ResetClick (freshPage (Some [aliceOffer ''$10'' ''70'' ''$10'']))))"
    "tasks (step codeUnits ResetClick (freshPage (Some [aliceOffer ''$10'' ''70'' ''$10'']))) ! 0
       = AwaitClear"
    by (simp_all add: freshPage_def)
  have c: "mapParse codeUnits [aliceListing ''$10'' ''70'' [cardItem ''Foo'' ''NM'' ''$10'']]
       = Inr [aliceOffer ''$10'' ''70'' ''$10'']"
    by (simp add: parse_defs sample_defs)
  from unmatched_is_new
    [of "[aliceOffer ''$10'' ''70'' ''$10'']" "[aliceSplit ''Bar'' ''LP'']" 0
        "step codeUnits ResetClick (freshPage (Some [aliceOffer ''$10'' ''70'' ''$10'']))"
        codeUnits "[aliceListing ''$10'' ''70'' [cardItem ''Foo'' ''NM'' ''$10'']]"]
    a b c
  show ?thesis by (simp add: sample_defs)
qed

text \<open>
  C8. The base key depends only on the seller name and on the quantity, name and
  condition of the cards in their order: two snapshots that agree on these have the same
  base key, whatever their total text, price texts, efficiency text and efficiency
  percentage are.
\<close>

theorem base_key_ignores_prices:
  assumes "username p = username q"
    and "map (\<lambda>c. (quantity c, name c, condition c)) (cards p)
          = map (\<lambda>c. (quantity c, name c, condition c)) (cards q)"
  shows "getBasePackageKey p = getBasePackageKey q"
  using assms by (rule base_key_cong)

theorem base_key_ignores_prices_witness:
  "username (aliceOffer ''$70'' ''70'' ''$70'') = username (aliceOffer ''$85'' ''85'' ''$71'')
   \<and> map (\<lambda>c. (quantity c, name c, condition c)) (cards (aliceOffer ''$70'' ''70'' ''$70''))
       = map (\<lambda>c. (quantity c, name c, condition c)) (cards (aliceOffer ''$85'' ''85'' ''$71''))
   \<and> total (aliceOffer ''$70'' ''70'' ''$70'') \<noteq> total (aliceOffer ''$85'' ''85'' ''$71'')
   \<and> getBasePackageKey (aliceOffer ''$70'' ''70'' ''$70'')
       = getBasePackageKey (aliceOffer ''$85'' ''85'' ''$71'')"
proof -
  have u: "username (aliceOffer ''$70'' ''70'' ''$70'') = username (aliceOffer ''$85'' ''85'' ''$71'')"
    by (simp add: sample_defs)
  have c: "map (\<lambda>c. (quantity c, name c, condition c)) (cards (aliceOffer ''$70'' ''70'' ''$70''))
       = map (\<lambda>c. (quantity c, name c, condition c)) (cards (aliceOffer ''$85'' ''85'' ''$71''))"
    by (simp add: sample_defs)
  have t: "total (aliceOffer ''$70'' ''70'' ''$70'') \<noteq> total (aliceOffer ''$85'' ''85'' ''$71'')"
    by (simp add: sample_defs)
  from base_key_ignores_prices [OF u c] u c t show ?thesis by simp
qed

text \<open>
  C10 (as amended). Let the snapshots of a page be such that any two of them with the
  same base key also have the same percentage key and the same full key (as they do when
  the base keys are pairwise different). Then classifying them against themselves gives
  \<open>Unchanged\<close> with nothing attached for every listing, a second full cycle on the
  reloaded page with the same markup leaves the stored set as the first cycle left it,
  and, when there is a listing, that set is the current snapshots and the second cycle
  annotates every listing \<open>Unchanged\<close>.
\<close>

theorem second_cycle_unchanged:
  assumes "mapParse collate packages = Inr cur"
    and "\<forall>a\<in>set cur. \<forall>b\<in>set cur. getBasePackageKey a = getBasePackageKey b
            \<longrightarrow> getPackageKeyWithPercentage a = getPackageKeyWithPercentage b
              \<and> getFullPackageKey a = getFullPackageKey b"
  shows "classify cur cur
      = map (\<lambda>c. \<lparr> tag = Unchanged, oldPackageTotal = None,
                    oldPriceInfo = map (\<lambda>c. None) (cards c) \<rparr>) cur
    \<and> storage (run collate
          (Reload # [Begin packages, Settle 0 True, Settle 0 True, Settle 0 True])
          (run collate [Begin packages, Settle 0 True, Settle 0 True, Settle 0 True] (freshPage st)))
      = storage (run collate [Begin packages, Settle 0 True, Settle 0 True, Settle 0 True] (freshPage st))
    \<and> (packages \<noteq> [] \<longrightarrow>
        storage (run collate [Begin packages, Settle 0 True, Settle 0 True, Settle 0 True] (freshPage st))
          = Some cur
      \<and> annotations (run collate
          (Reload # [Begin packages, Settle 0 True, Settle 0 True, Settle 0 True])
          (run collate [Begin packages, Settle 0 True, Settle 0 True, Settle 0 True] (freshPage st)))
          = map (\<lambda>c. \<lparr> tag = Unchanged, oldPackageTotal = None,
                        oldPriceInfo = map (\<lambda>c. None) (cards c) \<rparr>) cur)"
proof (cases "packages = []")
  case True
  with assms(1) have cur: "cur = []" by simp
  have e1: "run collate [Begin [], Settle 0 True, Settle 0 True, Settle 0 True] (freshPage st)
      = freshPage st"
    by (rule empty_cycle)
  have "step collate Reload (freshPage st) = freshPage st"
    by (simp add: freshPage_def)
  then have e2: "run collate (Reload # [Begin [], Settle 0 True, Settle 0 True, Settle 0 True])
      (freshPage st) = freshPage st"
    by (simp only: run_Cons [of collate Reload] e1)
  show ?thesis
    unfolding True cur by (simp only: e1 e2) (simp add: classify_def)
next
  case False
  note fc = full_cycle [OF assms(1) False, of st]
  note fc2 = full_cycle [OF assms(1) False, of "Some cur"]
  have rl: "step collate Reload
        (run collate [Begin packages, Settle 0 True, Settle 0 True, Settle 0 True] (freshPage st))
      = freshPage (Some cur)"
    by (simp only: fc) simp
  have r: "run collate (Reload # [Begin packages, Settle 0 True, Settle 0 True, Settle 0 True])
          (run collate [Begin packages, Settle 0 True, Settle 0 True, Settle 0 True] (freshPage st))
      = run collate [Begin packages, Settle 0 True, Settle 0 True, Settle 0 True] (freshPage (Some cur))"
    by (simp only: run_Cons [of collate Reload] rl)
  show ?thesis
    by (simp only: r, simp only: fc fc2, simp add: classify_self [OF assms(2)])
qed

theorem second_cycle_unchanged_witness:
  "mapParse codeUnits [aliceListing ''$10'' ''70'' [cardItem ''Foo'' ''NM'' ''$10'']]
       = Inr [aliceOffer ''$10'' ''70'' ''$10'']
   \<and> [aliceListing ''$10'' ''70'' [cardItem ''Foo'' ''NM'' ''$10'']] \<noteq> []
   \<and> storage (run codeUnits
          [Begin [aliceListing ''$10'' ''70'' [cardItem ''Foo'' ''NM'' ''$10'']],
           Settle 0 True, Settle 0 True, Settle 0 True] (freshPage None))
       = Some [aliceOffer ''$10'' ''70'' ''$10'']
   \<and> map tag (annotations (run codeUnits
          (Reload # [Begin [aliceListing ''$10'' ''70'' [cardItem ''Foo'' ''NM'' ''$10'']],
           Settle 0 True, Settle 0 True, Settle 0 True])
          (run codeUnits
            [Begin [aliceListing ''$10'' ''70'' [cardItem ''Foo'' ''NM'' ''$10'']],
             Settle 0 True, Settle 0 True, Settle 0 True] (freshPage None))))
       = [Unchanged]"
proof -
  have c: "mapParse codeUnits [aliceListing ''$10'' ''70'' [cardItem ''Foo'' ''NM'' ''$10'']]
       = Inr [aliceOffer ''$10'' ''70'' ''$10'']"
    by (simp add: parse_defs sample_defs)
  have h: "\<forall>a\<in>set [aliceOffer ''$10'' ''70'' ''$10'']. \<forall>b\<in>set [aliceOffer ''$10'' ''70'' ''$10''].
         getBasePackageKey a = getBasePackageKey b
         \<longrightarrow> getPackageKeyWithPercentage a = getPackageKeyWithPercentage b
           \<and> getFullPackageKey a = getFullPackageKey b"
    by simp
  from second_cycle_unchanged [OF c h, of None] c show ?thesis
    by simp
qed

theorem duplicate_base_key_reclassified:
  "classify [aliceOffer ''$70'' ''70'' ''$70'', aliceOffer ''$85'' ''85'' ''$85'']
            [aliceOffer ''$70'' ''70'' ''$70'', aliceOffer ''$85'' ''85'' ''$85''] ! 0
     = \<lparr> tag = OfferChanged, oldPackageTotal = Some (''$85'', ''85% of $100''),
         oldPriceInfo = [None] \<rparr>"
  by (simp add: classify_def analyzePackage_def prevBasePackageMap_def key_defs sample_defs)

text \<open>
  C4. In every state the controller reaches from a freshly loaded page, at most one
  extract-load-classify-save cycle is suspended, and while one is suspended the guard
  \<open>isInitializing\<close> is set (it is set in the same synchronous step that starts the
  load), so that a further call of \<open>beginInitialization\<close> or a further mutation
  notification changes nothing.
\<close>

theorem one_cycle_in_flight:
  "length (inFlight (run collate evs (freshPage st))) \<le> 1
   \<and> (inFlight (run collate evs (freshPage st)) \<noteq> [] \<longrightarrow>
        isInitializing (run collate evs (freshPage st))
      \<and> step collate (Begin ps) (run collate evs (freshPage st)) = run collate evs (freshPage st)
      \<and> step collate (Mutation ps) (run collate evs (freshPage st))
          = run collate evs (freshPage st))"
  using cycle_invariant_run [of collate evs st]
    begin_closed [of "run collate evs (freshPage st)" collate ps]
  by blast

theorem one_cycle_in_flight_witness:
  "inFlight (run codeUnits [Begin [aliceListing ''$10'' ''70'' [cardItem ''Foo'' ''NM'' ''$10'']]]
       (freshPage None)) = [AwaitLoad [aliceOffer ''$10'' ''70'' ''$10'']]
   \<and> length (inFlight (run codeUnits
         [Begin [aliceListing ''$10'' ''70'' [cardItem ''Foo'' ''NM'' ''$10'']]] (freshPage None))) \<le> 1
   \<and> isInitializing (run codeUnits
         [Begin [aliceListing ''$10'' ''70'' [cardItem ''Foo'' ''NM'' ''$10'']]] (freshPage None))
   \<and> step codeUnits (Mutation [aliceListing ''$10'' ''70'' [cardItem ''Foo'' ''NM'' ''$10'']])
        (run codeUnits [Begin [aliceListing ''$10'' ''70'' [cardItem ''Foo'' ''NM'' ''$10'']]]
           (freshPage None))
     = run codeUnits [Begin [aliceListing ''$10'' ''70'' [cardItem ''Foo'' ''NM'' ''$10'']]]
           (freshPage None)
   \<and> step codeUnits (Begin [aliceListing ''$10'' ''70'' [cardItem ''Foo'' ''NM'' ''$10'']])
        (run codeUnits [Begin [aliceListing ''$10'' ''70'' [cardItem ''Foo'' ''NM'' ''$10'']]]
           (freshPage None))
     = run codeUnits [Begin [aliceListing ''$10'' ''70'' [cardItem ''Foo'' ''NM'' ''$10'']]]
           (freshPage None)"
proof -
  have p: "mapParse codeUnits [aliceListing ''$10'' ''70'' [cardItem ''Foo'' ''NM'' ''$10'']]
       = Inr [aliceOffer ''$10'' ''70'' ''$10'']"
    by (simp add: parse_defs sample_defs)
  have r: "run codeUnits [Begin [aliceListing ''$10'' ''70'' [cardItem ''Foo'' ''NM'' ''$10'']]]
       (freshPage None)
     = (freshPage None)\<lparr>isInitializing := True,
          tasks := [AwaitLoad [aliceOffer ''$10'' ''70'' ''$10'']]\<rparr>"
    using begin_fresh [OF p, of None] by (simp add: run_Cons run_Nil)
  have f: "inFlight (run codeUnits [Begin [aliceListing ''$10'' ''70'' [cardItem ''Foo'' ''NM'' ''$10'']]]
       (freshPage None)) = [AwaitLoad [aliceOffer ''$10'' ''70'' ''$10'']]"
    by (simp only: r) (simp add: inFlight_def)
  from one_cycle_in_flight
    [of codeUnits "[Begin [aliceListing ''$10'' ''70'' [cardItem ''Foo'' ''NM'' ''$10'']]]" None
        "[aliceListing ''$10'' ''70'' [cardItem ''Foo'' ''NM'' ''$10'']]"] f
  show ?thesis by simp
qed

text \<open>
  C5 (as amended). The cards of a snapshot are the listing's items that are not "show
  more" placeholders, sorted by name under the collation, items whose names compare equal
  staying in markup order. Two listing elements with the same heading and the same items
  in a different order give the same snapshot, provided that no two of the cards have
  names that compare equal while the cards differ.
\<close>

theorem extract_order_independent:
  assumes h: "pkg_heading a = pkg_heading b"
    and m: "mset (pkg_items a) = mset (pkg_items b)"
    and d: "\<forall>x\<in>set (map parseCard (filter (\<lambda>li. \<not> li_more li) (pkg_items a))).
            \<forall>y\<in>set (map parseCard (filter (\<lambda>li. \<not> li_more li) (pkg_items a))).
              collate (name x) = collate (name y) \<longrightarrow> x = y"
  shows "parsePackage collate a = parsePackage collate b
    \<and> (\<forall>p. parsePackage collate a = Inr p \<longrightarrow>
          sorted (map (\<lambda>c. collate (name c)) (cards p))
        \<and> mset (cards p) = mset (map parseCard (filter (\<lambda>li. \<not> li_more li) (pkg_items a))))"
proof -
  have s: "sort_key (\<lambda>c. collate (name c)) (map parseCard (filter (\<lambda>li. \<not> li_more li) (pkg_items a)))
      = sort_key (\<lambda>c. collate (name c)) (map parseCard (filter (\<lambda>li. \<not> li_more li) (pkg_items b)))"
    using mset_parsed_items [OF m] d by (rule sort_key_of_permutation)
  have "parsePackage collate a = parsePackage collate b"
    unfolding parsePackage_def h s ..
  moreover have "sorted (map (\<lambda>c. collate (name c)) (cards p))
        \<and> mset (cards p) = mset (map parseCard (filter (\<lambda>li. \<not> li_more li) (pkg_items a)))"
    if "parsePackage collate a = Inr p" for p
    using that by (auto simp: parsePackage_def Let_def split: option.splits)
  ultimately show ?thesis by blast
qed

theorem extract_order_independent_witness:
  "pkg_heading (aliceListing ''$10'' ''70'' [cardItem ''Foo'' ''NM'' ''$10'', cardItem ''Bar'' ''LP'' ''$3''])
     = pkg_heading (aliceListing ''$10'' ''70'' [cardItem ''Bar'' ''LP'' ''$3'', cardItem ''Foo'' ''NM'' ''$10''])
   \<and> mset (pkg_items (aliceListing ''$10'' ''70'' [cardItem ''Foo'' ''NM'' ''$10'', cardItem ''Bar'' ''LP'' ''$3'']))
     = mset (pkg_items (aliceListing ''$10'' ''70'' [cardItem ''Bar'' ''LP'' ''$3'', cardItem ''Foo'' ''NM'' ''$10'']))
   \<and> parsePackage codeUnits
         (aliceListing ''$10'' ''70'' [cardItem ''Foo'' ''NM'' ''$10'', cardItem ''Bar'' ''LP'' ''$3''])
     = parsePackage codeUnits
         (aliceListing ''$10'' ''70'' [cardItem ''Bar'' ''LP'' ''$3'', cardItem ''Foo'' ''NM'' ''$10''])
   \<and> parsePackage codeUnits
         (aliceListing ''$10'' ''70'' [cardItem ''Foo'' ''NM'' ''$10'', cardItem ''Bar'' ''LP'' ''$3''])
     = Inr \<lparr> username = ''alice'', total = ''$10'', efficiencyText = ''70% of $100'',
             efficiencyPercentage = ''70'',
             cards = [\<lparr> name = ''Bar'', condition = ''LP'', price = ''$3'', quantity = ''1'' \<rparr>,
                      \<lparr> name = ''Foo'', condition = ''NM'', price = ''$10'', quantity = ''1'' \<rparr>] \<rparr>"
proof -
  let ?a = "aliceListing ''$10'' ''70'' [cardItem ''Foo'' ''NM'' ''$10'', cardItem ''Bar'' ''LP'' ''$3'']"
  let ?b = "aliceListing ''$10'' ''70'' [cardItem ''Bar'' ''LP'' ''$3'', cardItem ''Foo'' ''NM'' ''$10'']"
  have h: "pkg_heading ?a = pkg_heading ?b" by (simp add: aliceListing_def)
  have m: "mset (pkg_items ?a) = mset (pkg_items ?b)" by (simp add: aliceListing_def)
  have d: "\<forall>x\<in>set (map parseCard (filter (\<lambda>li. \<not> li_more li) (pkg_items ?a))).
            \<forall>y\<in>set (map parseCard (filter (\<lambda>li. \<not> li_more li) (pkg_items ?a))).
              codeUnits (name x) = codeUnits (name y) \<longrightarrow> x = y"
    by (simp add: parse_defs codeUnits_def)
  have v: "parsePackage codeUnits ?a
     = Inr \<lparr> username = ''alice'', total = ''$10'', efficiencyText = ''70% of $100'',
             efficiencyPercentage = ''70'',
             cards = [\<lparr> name = ''Bar'', condition = ''LP'', price = ''$3'', quantity = ''1'' \<rparr>,
                      \<lparr> name = ''Foo'', condition = ''NM'', price = ''$10'', quantity = ''1'' \<rparr>] \<rparr>"
    by (simp add: parse_defs codeUnits_def)
  from extract_order_independent [OF h m d] h m v show ?thesis by simp
qed

theorem same_name_keeps_markup_order:
  "pkg_heading (aliceListing ''$10'' ''70'' [cardItem ''Foo'' ''NM'' ''$10'', cardItem ''Foo'' ''LP'' ''$3''])
     = pkg_heading (aliceListing ''$10'' ''70'' [cardItem ''Foo'' ''LP'' ''$3'', cardItem ''Foo'' ''NM'' ''$10''])
   \<and> mset (pkg_items (aliceListing ''$10'' ''70'' [cardItem ''Foo'' ''NM'' ''$10'', cardItem ''Foo'' ''LP'' ''$3'']))
     = mset (pkg_items (aliceListing ''$10'' ''70'' [cardItem ''Foo'' ''LP'' ''$3'', cardItem ''Foo'' ''NM'' ''$10'']))
   \<and> parsePackage codeUnits
         (aliceListing ''$10'' ''70'' [cardItem ''Foo'' ''NM'' ''$10'', cardItem ''Foo'' ''LP'' ''$3''])
     \<noteq> parsePackage codeUnits
         (aliceListing ''$10'' ''70'' [cardItem ''Foo'' ''LP'' ''$3'', cardItem ''Foo'' ''NM'' ''$10''])
   \<and> map_sum id getBasePackageKey (parsePackage codeUnits
         (aliceListing ''$10'' ''70'' [cardItem ''Foo'' ''NM'' ''$10'', cardItem ''Foo'' ''LP'' ''$3'']))
     = Inr ''alice-1x Foo NM|1x Foo LP''
   \<and> map_sum id getBasePackageKey (parsePackage codeUnits
         (aliceListing ''$10'' ''70'' [cardItem ''Foo'' ''LP'' ''$3'', cardItem ''Foo'' ''NM'' ''$10'']))
     = Inr ''alice-1x Foo LP|1x Foo NM''"
  by (simp add: parse_defs codeUnits_def key_defs)

text \<open>
  C6. A listing element without a heading region: \<open>parsePackage\<close> throws a
  \<open>TypeError\<close> instead of returning a snapshot with empty strings, the cycle started
  by \<open>beginInitialization\<close> ends with that rejection, and the guard stays set, so
  that a later trigger on a well-formed page does nothing.
\<close>

theorem parse_without_heading_throws:
  "parsePackage codeUnits \<lparr> pkg_heading = None, pkg_items = [] \<rparr> = Inl TypeError
   \<and> step codeUnits (Begin [\<lparr> pkg_heading = None, pkg_items = [] \<rparr>]) (freshPage None)
     = (freshPage None)\<lparr>isInitializing := True, rejections := [TypeError]\<rparr>
   \<and> step codeUnits (Begin [aliceListing ''$10'' ''70'' [cardItem ''Foo'' ''NM'' ''$10'']])
       (step codeUnits (Begin [\<lparr> pkg_heading = None, pkg_items = [] \<rparr>]) (freshPage None))
     = (freshPage None)\<lparr>isInitializing := True, rejections := [TypeError]\<rparr>"
  by (simp add: parsePackage_def beginInitialization_def initializeState_def freshPage_def)

text \<open>
  C9. When the load or the save of a suspended cycle fails, the rejection is not caught,
  the guard \<open>isInitializing\<close> stays set, and as long as the page is not reloaded
  every call of \<open>beginInitialization\<close> and every mutation notification leaves the
  state as it is; no cycle is in flight and the store keeps its content.
\<close>

theorem failed_store_blocks_retries:
  assumes "s = run collate evs (freshPage st)"
    and "i < length (tasks s)"
    and "tasks s ! i = AwaitLoad cur \<or> tasks s ! i = AwaitSave cur"
    and "pageKept collate evs' (step collate (Settle i False) s)"
  shows "rejections (step collate (Settle i False) s) = StoreError # rejections s
    \<and> isInitializing (run collate evs' (step collate (Settle i False) s))
    \<and> inFlight (run collate evs' (step collate (Settle i False) s)) = []
    \<and> storage (run collate evs' (step collate (Settle i False) s)) = storage s
    \<and> step collate (Begin ps) (run collate evs' (step collate (Settle i False) s))
        = run collate evs' (step collate (Settle i False) s)
    \<and> step collate (Mutation ps) (run collate evs' (step collate (Settle i False) s))
        = run collate evs' (step collate (Settle i False) s)"
proof -
  from cycle_invariant_run [of collate evs st] assms(1)
  have inv: "length (inFlight s) \<le> 1" "inFlight s \<noteq> [] \<longrightarrow> isInitializing s" by simp_all
  from failed_store_step [OF inv assms(2,3), of collate]
  have f: "step collate (Settle i False) s
        = dropTask i (s\<lparr>rejections := StoreError # rejections s\<rparr>)"
    "isInitializing (step collate (Settle i False) s)"
    "inFlight (step collate (Settle i False) s) = []" by blast+
  from f(1) have r: "rejections (step collate (Settle i False) s) = StoreError # rejections s"
    and st: "storage (step collate (Settle i False) s) = storage s"
    by (simp_all only: f(1)) (simp_all add: dropTask_def)
  from blocked_run [OF f(2,3) assms(4)]
  have b: "isInitializing (run collate evs' (step collate (Settle i False) s))"
    "inFlight (run collate evs' (step collate (Settle i False) s)) = []"
    "storage (run collate evs' (step collate (Settle i False) s))
       = storage (step collate (Settle i False) s)" by blast+
  from begin_closed [of "run collate evs' (step collate (Settle i False) s)" collate ps] b(1)
  have "step collate (Begin ps) (run collate evs' (step collate (Settle i False) s))
        = run collate evs' (step collate (Settle i False) s)"
    "step collate (Mutation ps) (run collate evs' (step collate (Settle i False) s))
        = run collate evs' (step collate (Settle i False) s)" by blast+
  with r b st show ?thesis by simp
qed

theorem failed_store_blocks_retries_witness:
  "0 < length (tasks (run codeUnits
        [Begin [aliceListing ''$10'' ''70'' [cardItem ''Foo'' ''NM'' ''$10'']]] (freshPage None)))
   \<and> tasks (run codeUnits
        [Begin [aliceListing ''$10'' ''70'' [cardItem ''Foo'' ''NM'' ''$10'']]] (freshPage None)) ! 0
     = AwaitLoad [aliceOffer ''$10'' ''70'' ''$10'']
   \<and> pageKept codeUnits
        [Mutation [aliceListing ''$10'' ''70'' [cardItem ''Foo'' ''NM'' ''$10'']], ResetClick,
         Settle 0 False]
        (step codeUnits (Settle 0 False) (run codeUnits
          [Begin [aliceListing ''$10'' ''70'' [cardItem ''Foo'' ''NM'' ''$10'']]] (freshPage None)))
   \<and> rejections (step codeUnits (Settle 0 False) (run codeUnits
          [Begin [aliceListing ''$10'' ''70'' [cardItem ''Foo'' ''NM'' ''$10'']]] (freshPage None)))
     = [StoreError]
   \<and> isInitializing (run codeUnits
        [Mutation [aliceListing ''$10'' ''70'' [cardItem ''Foo'' ''NM'' ''$10'']], ResetClick,
         Settle 0 False]
        (step codeUnits (Settle 0 False) (run codeUnits
          [Begin [aliceListing ''$10'' ''70'' [cardItem ''Foo'' ''NM'' ''$10'']]] (freshPage None))))
   \<and> step codeUnits (Begin [aliceListing ''$10'' ''70'' [cardItem ''Foo'' ''NM'' ''$10'']])
        (run codeUnits
          [Mutation [aliceListing ''$10'' ''70'' [cardItem ''Foo'' ''NM'' ''$10'']], ResetClick,
           Settle 0 False]
          (step codeUnits (Settle 0 False) (run codeUnits
            [Begin [aliceListing ''$10'' ''70'' [cardItem ''Foo'' ''NM'' ''$10'']]] (freshPage None))))
     = run codeUnits
          [Mutation [aliceListing ''$10'' ''70'' [cardItem ''Foo'' ''NM'' ''$10'']], ResetClick,
           Settle 0 False]
          (step codeUnits (Settle 0 False) (run codeUnits
            [Begin [aliceListing ''$10'' ''70'' [cardItem ''Foo'' ''NM'' ''$10'']]] (freshPage None)))"
proof -
  let ?L = "[aliceListing ''$10'' ''70'' [cardItem ''Foo'' ''NM'' ''$10'']]"
  let ?s = "run codeUnits [Begin ?L] (freshPage None)"
  have p: "mapParse codeUnits ?L = Inr [aliceOffer ''$10'' ''70'' ''$10'']"
    by (simp add: parse_defs sample_defs)
  have r: "?s = (freshPage None)\<lparr>isInitializing := True,
          tasks := [AwaitLoad [aliceOffer ''$10'' ''70'' ''$10'']]\<rparr>"
    using begin_fresh [OF p, of None] by (simp add: run_Cons run_Nil)
  have i: "0 < length (tasks ?s)" by (simp only: r) simp
  have t: "tasks ?s ! 0 = AwaitLoad [aliceOffer ''$10'' ''70'' ''$10'']
      \<or> tasks ?s ! 0 = AwaitSave [aliceOffer ''$10'' ''70'' ''$10'']"
    by (simp only: r) simp
  have t': "tasks ?s ! 0 = AwaitLoad [aliceOffer ''$10'' ''70'' ''$10'']"
    by (simp only: r) simp
  have f: "step codeUnits (Settle 0 False) ?s
      = (freshPage None)\<lparr>isInitializing := True, rejections := [StoreError]\<rparr>"
    by (simp only: r) (simp add: freshPage_def dropTask_def)
  have k: "pageKept codeUnits [Mutation ?L, ResetClick, Settle 0 False]
      (step codeUnits (Settle 0 False) ?s)"
    by (simp only: f) (simp add: freshPage_def observerCallback_def)
  have e: "rejections (step codeUnits (Settle 0 False) ?s) = [StoreError]"
    by (simp only: f) simp
  from failed_store_blocks_retries [OF refl i t k, of ?L] i t' k e
  show ?thesis by blast
qed

end
